theory Spec2Isabelle
  imports Complex_Main "HOL-Library.Monad_Syntax"
begin

section \<open>The play-string parser of play.c\<close>

text \<open>
  The theory embeds the three functions of \<^verbatim>\<open>play.c\<close>: \<^verbatim>\<open>note_to_freq\<close>,
  \<^verbatim>\<open>play_note\<close> and \<^verbatim>\<open>play\<close>.

  \<^item> The callback \<^verbatim>\<open>tonew(int, int)\<close> is modelled by the list of the argument pairs
    it is called with, in call order.
  \<^item> A C computation whose behaviour is undefined (a division by zero, a signed
    overflow of the position counter) is the value \<open>None\<close>.
  \<^item> The \<^verbatim>\<open>int\<close> variables \<^verbatim>\<open>octave\<close> and \<^verbatim>\<open>duration\<close> hold values between 0 and 99
    only, so they are HOL integers; \<^verbatim>\<open>pos\<close> is checked against \<^verbatim>\<open>INT_MAX\<close>.
  \<^item> The \<^verbatim>\<open>double\<close> arithmetic of \<^verbatim>\<open>note_to_freq\<close> is idealised over the real numbers:
    \<^verbatim>\<open>pow\<close> is \<open>powr\<close>, products and quotients are exact. Nothing proved below about
    a frequency value accounts for the rounding error of IEEE arithmetic.
\<close>

subsection \<open>Characters and C library functions\<close>

text \<open>The code of a character as the comparisons of the source see it. Every comparison of
  the source is against an ASCII character, so the signedness of \<^verbatim>\<open>char\<close> plays no role.\<close>

definition code :: "char \<Rightarrow> int" where
  "code c = of_char c"

text \<open>\<^verbatim>\<open>isdigit\<close> and \<^verbatim>\<open>toupper\<close> of \<^verbatim>\<open>ctype.h\<close> in the C locale. For a byte above 127 on a
  platform whose \<^verbatim>\<open>char\<close> is signed the C standard leaves \<^verbatim>\<open>isdigit\<close> open; the model
  answers as the C library does, that it is no digit. \<^verbatim>\<open>toupper\<close> is only ever applied to a
  note letter.\<close>

definition isdigit :: "char \<Rightarrow> bool" where
  "isdigit c \<longleftrightarrow> code (CHR ''0'') \<le> code c \<and> code c \<le> code (CHR ''9'')"

definition toupper :: "char \<Rightarrow> char" where
  "toupper c =
     (if code (CHR ''a'') \<le> code c \<and> code c \<le> code (CHR ''z'')
      then char_of (code c - 32) else c)"

text \<open>\<^verbatim>\<open>round\<close> of \<^verbatim>\<open>math.h\<close>: to the nearest integer, halfway cases away from zero.\<close>

definition c_round :: "real \<Rightarrow> int" where
  "c_round x = (if 0 \<le> x then \<lfloor>x + 1 / 2\<rfloor> else \<lceil>x - 1 / 2\<rceil>)"

text \<open>Integer division of C: undefined for a zero divisor, truncating otherwise.\<close>

definition c_div :: "int \<Rightarrow> int \<Rightarrow> int option" where
  "c_div a b = (if b = 0 then None else Some (sgn a * sgn b * (\<bar>a\<bar> div \<bar>b\<bar>)))"

text \<open>The string a \<^verbatim>\<open>const char *\<close> denotes: the bytes before the first NUL. \<^verbatim>\<open>play\<close>
  below runs on this list, where \<^verbatim>\<open>*s\<close> is the head of the list and \<^verbatim>\<open>!*(s + 1)\<close> says that
  its tail is empty.\<close>

definition c_string :: "string \<Rightarrow> string" where
  "c_string s = takeWhile (\<lambda>c. c \<noteq> CHR 0x00) s"

subsection \<open>note_to_freq\<close>

definition note_to_freq :: "char \<Rightarrow> char \<Rightarrow> int \<Rightarrow> int" where
  "note_to_freq note half octave =
     (let base_freq = (55 :: real);
          half_steps =
            (if note = CHR ''C'' then - 21
             else if note = CHR ''D'' then - 19
             else if note = CHR ''E'' then - 17
             else if note = CHR ''F'' then - 16
             else if note = CHR ''G'' then - 14
             else if note = CHR ''A'' then - 12
             else if note = CHR ''B'' then - 10
             else (0 :: int));
          half_steps =
            (if half = CHR ''#'' \<or> half = CHR ''+'' then half_steps + 1
             else if half = CHR ''-'' then half_steps - 1
             else half_steps);
          freq = 2 powr (real_of_int half_steps / 12) * base_freq;
          freq =
            (if octave > 1 then freq * 2 powr (real_of_int octave)
             else if octave < 1 then freq / 2 powr (real_of_int (- octave))
             else freq)
      in c_round freq)"

subsection \<open>play_note\<close>

type_synonym tone = "int \<times> int"

definition play_note :: "char \<Rightarrow> char \<Rightarrow> int \<Rightarrow> int \<Rightarrow> tone list option" where
  "play_note note half_tone octave duration =
     (let note = toupper note in
      if duration \<ge> 1 then
        do {
          gap \<leftarrow> c_div 1000 duration;
          Some [(if note \<noteq> CHR ''R'' then note_to_freq note half_tone octave else 0, gap)]
        }
      else Some [])"

subsection \<open>play\<close>

datatype parsing_state = COMMAND | OCTAVE_NUMBER

text \<open>The local variables of \<^verbatim>\<open>play\<close>. \<^verbatim>\<open>half_tone\<close> is an \<^verbatim>\<open>int\<close> that holds 0 or a
  character and is passed on as a \<^verbatim>\<open>char\<close>.\<close>

record locals =
  state :: parsing_state
  pos :: int
  octave :: int
  "note" :: char
  duration :: int
  half_tone :: char
  pending_note :: bool
  length_specified :: bool

text \<open>\<^verbatim>\<open>note\<close> is not initialised by the source; it is read only while \<^verbatim>\<open>pending_note\<close>
  is true, that is after a note letter has been stored in it.\<close>

definition init :: locals where
  "init = \<lparr>state = COMMAND, pos = 0, octave = 4, note = CHR 0x00, duration = 1,
           half_tone = CHR 0x00, pending_note = False, length_specified = False\<rparr>"

text \<open>What one execution of the \<^verbatim>\<open>switch\<close> statement does: it returns from \<^verbatim>\<open>play\<close>
  with a position, or it falls to the end of the loop body with new values of the
  locals, after the calls of the callback listed.\<close>

datatype outcome = Return int | Continue locals "tone list"

text \<open>The first condition of the \<^verbatim>\<open>COMMAND\<close> case: a note letter or a rest.\<close>

definition is_note :: "char \<Rightarrow> bool" where
  "is_note c \<longleftrightarrow>
     (code c \<ge> code (CHR ''a'') \<and> code c \<le> code (CHR ''g'')) \<or>
     (code c \<ge> code (CHR ''A'') \<and> code c \<le> code (CHR ''G'')) \<or>
     c = CHR ''r'' \<or> c = CHR ''R''"

text \<open>The body of the loop at character \<open>c\<close>; \<open>at_end\<close> is \<^verbatim>\<open>!*(s + 1)\<close>.\<close>

definition body :: "locals \<Rightarrow> char \<Rightarrow> bool \<Rightarrow> outcome option" where
  "body l c at_end =
     (case state l of
        COMMAND \<Rightarrow>
          if is_note c then
            do {
              ev1 \<leftarrow> (if pending_note l
                      then play_note (note l) (half_tone l) (octave l) (duration l)
                      else Some []);
              let l = l\<lparr>note := c, half_tone := CHR 0x00, duration := 1,
                         pending_note := True, length_specified := False\<rparr>;
              ev2 \<leftarrow> (if at_end
                      then play_note (note l) (half_tone l) (octave l) (duration l)
                      else Some []);
              Some (Continue l (ev1 @ ev2))
            }
          else if c = CHR ''o'' \<or> c = CHR ''O'' then
            if pending_note l then
              do {
                ev \<leftarrow> play_note (note l) (half_tone l) (octave l) (duration l);
                Some (Continue (l\<lparr>pending_note := False, length_specified := False,
                                   state := OCTAVE_NUMBER\<rparr>) ev)
              }
            else Some (Continue (l\<lparr>state := OCTAVE_NUMBER\<rparr>) [])
          else if pending_note l then
            if \<not> length_specified l then
              if (c = CHR ''#'' \<or> c = CHR ''+'' \<or> c = CHR ''-'') \<and> note l \<noteq> CHR ''r''
                  \<and> note l \<noteq> CHR ''R''
              then Some (Continue (l\<lparr>half_tone := c\<rparr>) [])
              else if isdigit c then
                Some (Continue (l\<lparr>duration := code c - code (CHR ''0''),
                                   length_specified := True\<rparr>) [])
              else Some (Return (pos l))
            else if isdigit c then
              do {
                let l = l\<lparr>duration := duration l * 10 + code c - code (CHR ''0'')\<rparr>;
                ev \<leftarrow> play_note (note l) (half_tone l) (octave l) (duration l);
                Some (Continue (l\<lparr>pending_note := False, length_specified := False,
                                   state := COMMAND\<rparr>) ev)
              }
            else Some (Return (pos l))
          else Some (Continue l [])
      | OCTAVE_NUMBER \<Rightarrow>
          if isdigit c then
            Some (Continue (l\<lparr>octave := code c - code (CHR ''0''), state := COMMAND\<rparr>) [])
          else Some (Return (pos l)))"

definition INT_MAX :: int where
  "INT_MAX = 2147483647"

text \<open>\<^verbatim>\<open>pos++\<close> on a 32-bit \<^verbatim>\<open>int\<close>.\<close>

definition incr :: "int \<Rightarrow> int option" where
  "incr p = (if p < INT_MAX then Some (p + 1) else None)"

text \<open>The \<^verbatim>\<open>for\<close> loop over the characters that are left, and the \<^verbatim>\<open>return -1\<close> after it.
  The result is the list of callback invocations and the value returned.\<close>

fun play_loop :: "locals \<Rightarrow> string \<Rightarrow> (tone list \<times> int) option" where
  "play_loop l [] = Some ([], - 1)"
| "play_loop l (c # cs) =
     do {
       r \<leftarrow> body l c (cs = []);
       case r of
         Return p \<Rightarrow> Some ([], p)
       | Continue l' ev \<Rightarrow>
           do {
             p \<leftarrow> incr (pos l');
             (evs, ret) \<leftarrow> play_loop (l'\<lparr>pos := p\<rparr>) cs;
             Some (ev @ evs, ret)
           }
     }"

definition play :: "string \<Rightarrow> (tone list \<times> int) option" where
  "play s = play_loop init (c_string s)"

subsection \<open>Values of the locals used as examples\<close>

text \<open>The locals of \<^verbatim>\<open>play\<close> after the inputs \<^verbatim>\<open>"C"\<close> and \<^verbatim>\<open>"C2"\<close>.\<close>

definition after_C :: locals where
  "after_C = \<lparr>state = COMMAND, pos = 1, octave = 4, note = CHR ''C'', duration = 1,
              half_tone = CHR 0x00, pending_note = True, length_specified = False\<rparr>"

definition after_C2 :: locals where
  "after_C2 = \<lparr>state = COMMAND, pos = 2, octave = 4, note = CHR ''C'', duration = 2,
               half_tone = CHR 0x00, pending_note = True, length_specified = True\<rparr>"

subsection \<open>Letters in either case\<close>

text \<open>The letters that \<^verbatim>\<open>play\<close> reads in both cases: the note letters, the rest and the
  octave marker. Two characters are the same letter when they are equal, or when both are
  such letters and have the same upper-case form.\<close>

definition play_letter :: "char \<Rightarrow> bool" where
  "play_letter c \<longleftrightarrow> is_note c \<or> c = CHR ''o'' \<or> c = CHR ''O''"

definition same_letter :: "char \<Rightarrow> char \<Rightarrow> bool" where
  "same_letter c d \<longleftrightarrow> c = d \<or> (play_letter c \<and> play_letter d \<and> toupper c = toupper d)"

text \<open>Two values of the locals that differ at most in the case of the note letter stored,
  and two outcomes of the loop body that agree up to that.\<close>

definition sim :: "locals \<Rightarrow> locals \<Rightarrow> bool" where
  "sim l m \<longleftrightarrow>
     state m = state l \<and> pos m = pos l \<and> octave m = octave l \<and> duration m = duration l \<and>
     half_tone m = half_tone l \<and> pending_note m = pending_note l \<and>
     length_specified m = length_specified l \<and> toupper (note m) = toupper (note l)"

definition sim_outcome :: "outcome option \<Rightarrow> outcome option \<Rightarrow> bool" where
  "sim_outcome x y \<longleftrightarrow>
     (\<exists>p. x = Some (Return p) \<and> y = Some (Return p)) \<or>
     (\<exists>l m ev. x = Some (Continue l ev) \<and> y = Some (Continue m ev) \<and> sim l m)"

section \<open>Properties\<close>

subsection \<open>Evaluation on concrete inputs\<close>

text \<open>The guard of \<^verbatim>\<open>play_note\<close> keeps the division defined, so the function has a value
  for every argument.\<close>

lemma play_note_total:
  "play_note n h oc d =
     Some (if 1 \<le> d
           then [(if toupper n \<noteq> CHR ''R'' then note_to_freq (toupper n) h oc else 0,
                  1000 div d)]
           else [])"
  by (auto simp: play_note_def c_div_def Let_def sgn_if)

text \<open>The simplifier runs the loop from the first character on when it does not enter
  the continuation of a bind before the first argument has a value.\<close>

lemma bind_weak_cong: "x = y \<Longrightarrow> Option.bind x f = Option.bind y f"
  by simp

lemmas play_eval =
  Let_def char_of_def play_def c_string_def init_def body_def is_note_def isdigit_def
  code_def toupper_def incr_def INT_MAX_def play_note_total

subsection \<open>One iteration of the loop\<close>

text \<open>Whether the body returns, and the locals it leaves, do not depend on the
  character after the current one; only the callback invocations do. The position is
  changed by the loop header alone.\<close>

lemma body_shape:
  "(\<forall>e. body l c e = Some (Return (pos l))) \<or>
   (\<exists>l'. pos l' = pos l \<and> (\<forall>e. \<exists>ev. body l c e = Some (Continue l' ev)))"
proof (cases "state l")
  case COMMAND
  show ?thesis
  proof (cases "is_note c")
    case True
    with COMMAND show ?thesis
      by (simp add: body_def play_note_total Let_def)
  next
    case False
    with COMMAND show ?thesis
      by (simp add: body_def play_note_total Let_def)
  qed
next
  case OCTAVE_NUMBER
  then show ?thesis by (simp add: body_def)
qed

lemma body_Return_any:
  assumes "body l c e = Some (Return p)"
  shows "p = pos l \<and> body l c e' = Some (Return p)"
proof -
  from body_shape [of l c] show ?thesis
  proof
    assume a: "\<forall>e. body l c e = Some (Return (pos l))"
    from a have "body l c e = Some (Return (pos l))" by (rule spec)
    with assms have "p = pos l" by simp
    moreover from a have "body l c e' = Some (Return (pos l))" by (rule spec)
    ultimately show ?thesis by simp
  next
    assume "\<exists>l'. pos l' = pos l \<and> (\<forall>e. \<exists>ev. body l c e = Some (Continue l' ev))"
    then obtain m where "\<forall>e. \<exists>ev. body l c e = Some (Continue m ev)" by blast
    then obtain ev where "body l c e = Some (Continue m ev)" by blast
    with assms show ?thesis by simp
  qed
qed

lemma body_Continue_any:
  assumes "body l c e = Some (Continue l' ev)"
  shows "pos l' = pos l \<and> (\<exists>ev'. body l c e' = Some (Continue l' ev'))"
proof -
  from body_shape [of l c] show ?thesis
  proof
    assume "\<forall>e. body l c e = Some (Return (pos l))"
    then have "body l c e = Some (Return (pos l))" by (rule spec)
    with assms show ?thesis by simp
  next
    assume "\<exists>l'. pos l' = pos l \<and> (\<forall>e. \<exists>ev. body l c e = Some (Continue l' ev))"
    then obtain m where m: "pos m = pos l"
      and a: "\<forall>e. \<exists>ev. body l c e = Some (Continue m ev)" by blast
    from a obtain ev0 where "body l c e = Some (Continue m ev0)" by blast
    with assms have "m = l'" by simp
    with m a show ?thesis by blast
  qed
qed

lemma bind_unit: "Option.bind x (\<lambda>(evs, ret). Some ([] @ evs, ret)) = x"
  by (cases x) auto

lemma digit_not_letter:
  "isdigit c \<Longrightarrow> \<not> is_note c \<and> c \<noteq> CHR ''o'' \<and> c \<noteq> CHR ''O''"
  by (auto simp: isdigit_def is_note_def code_def)

subsection \<open>The loop\<close>

lemma play_loop_Return:
  "body l c (cs = []) = Some (Return p) \<Longrightarrow> play_loop l (c # cs) = Some ([], p)"
  by simp

lemma play_loop_Continue:
  "body l c (cs = []) = Some (Continue l' ev) \<Longrightarrow> pos l' < INT_MAX \<Longrightarrow>
   play_loop l (c # cs) =
     (case play_loop (l'\<lparr>pos := pos l' + 1\<rparr>) cs of
        None \<Rightarrow> None | Some (evs, r) \<Rightarrow> Some (ev @ evs, r))"
  by (simp add: incr_def split: option.split)

lemma play_loop_range:
  "0 \<le> pos l \<Longrightarrow> pos l + int (length cs) \<le> INT_MAX \<Longrightarrow>
   \<exists>evs r. play_loop l cs = Some (evs, r) \<and> (r = - 1 \<or> (pos l \<le> r \<and> r < pos l + int (length cs)))"
proof (induction cs arbitrary: l)
  case Nil
  then show ?case by simp
next
  case (Cons c cs)
  from body_shape [of l c] show ?case
  proof
    assume "\<forall>e. body l c e = Some (Return (pos l))"
    then have "play_loop l (c # cs) = Some ([], pos l)"
      by (simp only: play_loop_Return)
    then show ?thesis by simp
  next
    assume "\<exists>l'. pos l' = pos l \<and> (\<forall>e. \<exists>ev. body l c e = Some (Continue l' ev))"
    then obtain l' ev where l': "pos l' = pos l" and b: "body l c (cs = []) = Some (Continue l' ev)"
      by blast
    let ?m = "l'\<lparr>pos := pos l' + 1\<rparr>"
    from Cons.prems l' have lt: "pos l' < INT_MAX" by simp
    from Cons.prems l' have "0 \<le> pos ?m" "pos ?m + int (length cs) \<le> INT_MAX" by simp_all
    from Cons.IH [OF this] obtain evs r where
      m: "play_loop ?m cs = Some (evs, r)" and r: "r = - 1 \<or> (pos ?m \<le> r \<and> r < pos ?m + int (length cs))"
      by blast
    have "play_loop l (c # cs) = Some (ev @ evs, r)"
      by (simp only: play_loop_Continue [OF b lt] m option.case prod.case)
    moreover from r l' have "r = - 1 \<or> (pos l \<le> r \<and> r < pos l + int (length (c # cs)))"
      by auto
    ultimately show ?thesis by blast
  qed
qed

lemma play_loop_Cons_cases:
  assumes "play_loop l (c # cs) = Some (evs, r)"
  shows "(body l c (cs = []) = Some (Return r) \<and> evs = []) \<or>
         (\<exists>l' ev evs'. body l c (cs = []) = Some (Continue l' ev) \<and> pos l' < INT_MAX \<and>
            play_loop (l'\<lparr>pos := pos l' + 1\<rparr>) cs = Some (evs', r) \<and> evs = ev @ evs')"
proof (cases "body l c (cs = [])")
  case None
  with assms show ?thesis by simp
next
  case (Some out)
  show ?thesis
  proof (cases out)
    case (Return p)
    with Some assms show ?thesis by simp
  next
    case (Continue l' ev)
    with Some assms show ?thesis
      by (auto simp: incr_def split: if_splits bind_splits)
  qed
qed

lemma play_loop_range_Some:
  "play_loop l cs = Some (evs, r) \<Longrightarrow> 0 \<le> pos l \<Longrightarrow>
   r = - 1 \<or> (pos l \<le> r \<and> r < pos l + int (length cs))"
proof (induction cs arbitrary: l evs)
  case Nil
  then show ?case by simp
next
  case (Cons c cs)
  from play_loop_Cons_cases [OF Cons.prems(1)] show ?case
  proof (elim disjE exE conjE)
    assume "body l c (cs = []) = Some (Return r)"
    from body_Return_any [OF this] show ?thesis by simp
  next
    fix l' ev evs'
    assume b: "body l c (cs = []) = Some (Continue l' ev)"
      and m: "play_loop (l'\<lparr>pos := pos l' + 1\<rparr>) cs = Some (evs', r)"
    from body_Continue_any [OF b] have p: "pos l' = pos l" by simp
    with Cons.prems have "0 \<le> pos (l'\<lparr>pos := pos l' + 1\<rparr>)" by simp
    from Cons.IH [OF m this] p show ?thesis by auto
  qed
qed

lemma play_loop_extend:
  "play_loop l cs = Some (evs, r) \<Longrightarrow> 0 \<le> pos l \<Longrightarrow> r \<noteq> - 1 \<Longrightarrow>
   play_loop l (take (nat (r - pos l) + 1) cs @ t) = Some (evs, r)"
proof (induction cs arbitrary: l evs)
  case Nil
  then show ?case by simp
next
  case (Cons c cs)
  from play_loop_Cons_cases [OF Cons.prems(1)] show ?case
  proof (elim disjE exE conjE)
    assume b: "body l c (cs = []) = Some (Return r)" and e: "evs = []"
    from body_Return_any [OF b, of "t = []"]
    have "r = pos l" and "body l c (t = []) = Some (Return r)" by simp_all
    then show ?thesis using e by (simp del: play_loop.simps add: play_loop_Return)
  next
    fix l' ev evs'
    assume b: "body l c (cs = []) = Some (Continue l' ev)"
      and lt: "pos l' < INT_MAX"
      and m: "play_loop (l'\<lparr>pos := pos l' + 1\<rparr>) cs = Some (evs', r)"
      and e: "evs = ev @ evs'"
    let ?m = "l'\<lparr>pos := pos l' + 1\<rparr>"
    from body_Continue_any [OF b] have p: "pos l' = pos l" by simp
    with Cons.prems have m0: "0 \<le> pos ?m" by simp
    from Cons.prems(3) m have ne: "cs \<noteq> []" by (cases cs) auto
    from play_loop_range_Some [OF m m0] Cons.prems(3) p have r: "pos l + 1 \<le> r" by simp
    define n where "n = nat (r - pos ?m) + 1"
    from r p have n: "nat (r - pos l) + 1 = Suc n" by (simp add: n_def)
    from ne have ne': "take n cs @ t \<noteq> []" by (simp add: n_def)
    from Cons.IH [OF m m0 Cons.prems(3)]
    have ih: "play_loop ?m (take n cs @ t) = Some (evs', r)" by (simp add: n_def)
    from ne ne' have "(take n cs @ t = []) = (cs = [])" by simp
    with b have b': "body l c (take n cs @ t = []) = Some (Continue l' ev)" by (simp only:)
    have "play_loop l (c # (take n cs @ t)) = Some (ev @ evs', r)"
      by (simp only: play_loop_Continue [OF b' lt] ih option.case prod.case)
    with n e show ?thesis by simp
  qed
qed

lemma play_loop_prefix:
  "play_loop l cs = Some (evs, r) \<Longrightarrow> 0 \<le> pos l \<Longrightarrow>
   int k \<le> (if r = - 1 then int (length cs) else r - pos l) \<Longrightarrow>
   \<exists>e. play_loop l (take k cs) = Some (e, - 1)"
proof (induction cs arbitrary: l evs k)
  case Nil
  then show ?case by simp
next
  case (Cons c cs)
  show ?case
  proof (cases k)
    case 0
    then show ?thesis by simp
  next
    case (Suc k')
    from play_loop_Cons_cases [OF Cons.prems(1)] show ?thesis
    proof (elim disjE exE conjE)
      assume b: "body l c (cs = []) = Some (Return r)"
      from body_Return_any [OF b] have "r = pos l" by simp
      with Cons.prems Suc show ?thesis by (simp split: if_splits)
    next
      fix l' ev evs'
      assume b: "body l c (cs = []) = Some (Continue l' ev)"
        and lt: "pos l' < INT_MAX"
        and m: "play_loop (l'\<lparr>pos := pos l' + 1\<rparr>) cs = Some (evs', r)"
      let ?m = "l'\<lparr>pos := pos l' + 1\<rparr>"
      from body_Continue_any [OF b, of "take k' cs = []"]
      obtain ev' where p: "pos l' = pos l"
        and b': "body l c (take k' cs = []) = Some (Continue l' ev')" by blast
      from p Cons.prems have m0: "0 \<le> pos ?m" by simp
      from Cons.prems(3) Suc p
      have "int k' \<le> (if r = - 1 then int (length cs) else r - pos ?m)"
        by (simp split: if_splits)
      from Cons.IH [OF m m0 this] obtain e where
        ih: "play_loop ?m (take k' cs) = Some (e, - 1)" by blast
      have "play_loop l (c # take k' cs) = Some (ev' @ e, - 1)"
        by (simp only: play_loop_Continue [OF b' lt] ih option.case prod.case)
      with Suc show ?thesis by simp
    qed
  qed
qed

subsection \<open>C strings\<close>

lemma c_string_no_NUL: "CHR 0x00 \<notin> set (c_string s)"
  by (auto simp: c_string_def dest: set_takeWhileD)

lemma c_string_append: "CHR 0x00 \<notin> set xs \<Longrightarrow> c_string (xs @ t) = xs @ c_string t"
  by (induction xs) (auto simp: c_string_def)

lemma c_string_take: "c_string (take k (c_string s) @ t) = take k (c_string s) @ c_string t"
  using c_string_no_NUL [of s] by (intro c_string_append) (auto dest: in_set_takeD)

lemma c_string_Nil: "c_string [] = []"
  by (simp add: c_string_def)

lemma c_string_take_idem: "c_string (take k (c_string s)) = take k (c_string s)"
  using c_string_take [of k s "[]"] by (simp only: c_string_Nil append_Nil2)

subsection \<open>Two frequency values\<close>

text \<open>The frequency of C in the octaves 4 and 5, in the arithmetic of the real numbers:
  \<open>55 * 2 powr (- 21 / 12) * 2 ^ 4\<close> lies between 261.5 and 262.5, and twice that value between
  522.5 and 523.5, since the fourth power of \<open>2 powr (- 21 / 12)\<close> is \<open>1 / 128\<close>.\<close>

lemma pow_quarter:
  fixes y :: real
  assumes "0 < y" "y ^ 4 = 1 / 128" 
  shows "523 / 1760 \<le> y \<and> y < 525 / 1760 \<and> 1045 / 3520 \<le> y \<and> y < 1047 / 3520"
proof -
  have a: "a \<le> y" if "0 \<le> a" "a ^ 4 < 1 / 128" for a :: real
  proof (rule ccontr)
    assume "\<not> a \<le> y"
    then have "y \<le> a" by simp
    with assms(1) have "y ^ 4 \<le> a ^ 4" by (intro power_mono) simp_all
    with that assms(2) show False by simp
  qed
  have b: "y < b" if "0 \<le> b" "1 / 128 < b ^ 4" for b :: real
  proof (rule ccontr)
    assume "\<not> y < b"
    then have "b \<le> y" by simp
    with that(1) have "b ^ 4 \<le> y ^ 4" by (intro power_mono) simp_all
    with that assms(2) show False by simp
  qed
  have "523 / 1760 \<le> y" by (rule a) (simp_all add: power4_eq_xxxx)
  moreover have "y < 525 / 1760" by (rule b) (simp_all add: power4_eq_xxxx)
  moreover have "1045 / 3520 \<le> y" by (rule a) (simp_all add: power4_eq_xxxx)
  moreover have "y < 1047 / 3520" by (rule b) (simp_all add: power4_eq_xxxx)
  ultimately show ?thesis by simp
qed

lemma two_powr_m74: "(2 powr (- 21 / 12) :: real) ^ 4 = 1 / 128"
proof -
  have "(2 powr (- 21 / 12) :: real) ^ 4 = 2 powr (- 21 / 12 * 4)"
    by (simp add: powr_powr flip: powr_numeral)
  also have "\<dots> = 2 powr (- 7)" by simp
  also have "\<dots> = 1 / 128" by (simp add: powr_minus_divide)
  finally show ?thesis .
qed


lemma note_to_freq_C4: "note_to_freq CHR ''C'' CHR 0x00 4 = 262"
proof -
  define y :: real where "y = 2 powr (- 21 / 12)"
  have "0 < y" by (simp add: y_def)
  moreover have "y ^ 4 = 1 / 128" unfolding y_def by (rule two_powr_m74)
  ultimately have b: "523 / 1760 \<le> y" "y < 525 / 1760"
    using pow_quarter [of y] by simp_all
  have "note_to_freq CHR ''C'' CHR 0x00 4 = c_round (y * 55 * 2 powr 4)"
    by (simp add: note_to_freq_def Let_def y_def)
  also have "\<dots> = \<lfloor>880 * y + 1 / 2\<rfloor>"
    using \<open>0 < y\<close> by (simp add: c_round_def)
  also have "\<dots> = 262"
    using b by (intro floor_unique) simp_all
  finally show ?thesis .
qed

lemma note_to_freq_C5: "note_to_freq CHR ''C'' CHR 0x00 5 = 523"
proof -
  define y :: real where "y = 2 powr (- 21 / 12)"
  have "0 < y" by (simp add: y_def)
  moreover have "y ^ 4 = 1 / 128" unfolding y_def by (rule two_powr_m74)
  ultimately have b: "1045 / 3520 \<le> y" "y < 1047 / 3520"
    using pow_quarter [of y] by simp_all
  have "note_to_freq CHR ''C'' CHR 0x00 5 = c_round (y * 55 * 2 powr 5)"
    by (simp add: note_to_freq_def Let_def y_def)
  also have "\<dots> = \<lfloor>1760 * y + 1 / 2\<rfloor>"
    using \<open>0 < y\<close> by (simp add: c_round_def)
  also have "\<dots> = 523"
    using b by (intro floor_unique) simp_all
  finally show ?thesis .
qed

subsection \<open>The case of letters\<close>

text \<open>The letters are enumerated from the comparisons of the source; \<^verbatim>\<open>toupper\<close> maps
  exactly \<open>r\<close> and \<open>R\<close> to \<open>R\<close>, so the test for a rest in \<^verbatim>\<open>play\<close> (on the letter as
  typed) and the one in \<^verbatim>\<open>play_note\<close> (on its upper-case form) agree. The body of the loop
  and then the loop map inputs that differ in case to the same callback invocations and
  the same result.\<close>

lemma code_inj: "code c = code d \<Longrightarrow> c = d"
  by (simp add: code_def)

lemma lower_a_g:
  assumes "code (CHR ''a'') \<le> code c" and "code c \<le> code (CHR ''g'')"
  shows "c \<in> set ''abcdefg''"
proof -
  have v: "code CHR ''a'' = 97" "code CHR ''b'' = 98" "code CHR ''c'' = 99"
    "code CHR ''d'' = 100" "code CHR ''e'' = 101" "code CHR ''f'' = 102"
    "code CHR ''g'' = 103"
    by (simp_all add: code_def)
  from assms have "97 \<le> code c" "code c \<le> 103" by (simp_all only: v)
  then have "code c = 97 \<or> code c = 98 \<or> code c = 99 \<or> code c = 100 \<or> code c = 101 \<or>
    code c = 102 \<or> code c = 103" by arith
  then have "code c = code CHR ''a'' \<or> code c = code CHR ''b'' \<or> code c = code CHR ''c'' \<or>
    code c = code CHR ''d'' \<or> code c = code CHR ''e'' \<or> code c = code CHR ''f'' \<or>
    code c = code CHR ''g''" by (simp only: v)
  then have "c = CHR ''a'' \<or> c = CHR ''b'' \<or> c = CHR ''c'' \<or> c = CHR ''d'' \<or>
    c = CHR ''e'' \<or> c = CHR ''f'' \<or> c = CHR ''g''"
    by (elim disjE) (simp_all only: code_inj simp_thms)
  then show ?thesis by simp
qed


lemma upper_A_G:
  assumes "code (CHR ''A'') \<le> code c" and "code c \<le> code (CHR ''G'')"
  shows "c \<in> set ''ABCDEFG''"
proof -
  have v: "code CHR ''A'' = 65" "code CHR ''B'' = 66" "code CHR ''C'' = 67"
    "code CHR ''D'' = 68" "code CHR ''E'' = 69" "code CHR ''F'' = 70"
    "code CHR ''G'' = 71"
    by (simp_all add: code_def)
  from assms have "65 \<le> code c" "code c \<le> 71" by (simp_all only: v)
  then have "code c = 65 \<or> code c = 66 \<or> code c = 67 \<or> code c = 68 \<or> code c = 69 \<or>
    code c = 70 \<or> code c = 71" by arith
  then have "code c = code CHR ''A'' \<or> code c = code CHR ''B'' \<or> code c = code CHR ''C'' \<or>
    code c = code CHR ''D'' \<or> code c = code CHR ''E'' \<or> code c = code CHR ''F'' \<or>
    code c = code CHR ''G''" by (simp only: v)
  then have "c = CHR ''A'' \<or> c = CHR ''B'' \<or> c = CHR ''C'' \<or> c = CHR ''D'' \<or>
    c = CHR ''E'' \<or> c = CHR ''F'' \<or> c = CHR ''G''"
    by (elim disjE) (simp_all only: code_inj simp_thms)
  then show ?thesis by simp
qed

lemma play_letter_cases:
  assumes "play_letter c"
  shows "c \<in> set ''abcdefgABCDEFGrRoO''"
proof -
  from assms consider
      "code (CHR ''a'') \<le> code c \<and> code c \<le> code (CHR ''g'')"
    | "code (CHR ''A'') \<le> code c \<and> code c \<le> code (CHR ''G'')"
    | "c = CHR ''r'' \<or> c = CHR ''R'' \<or> c = CHR ''o'' \<or> c = CHR ''O''"
    unfolding play_letter_def is_note_def by blast
  then show ?thesis
  proof cases
    case 1
    then have "c \<in> set ''abcdefg''" by (simp only: lower_a_g)
    then show ?thesis by auto
  next
    case 2
    then have "c \<in> set ''ABCDEFG''" by (simp only: upper_A_G)
    then show ?thesis by auto
  next
    case 3
    then show ?thesis by auto
  qed
qed

lemma toupper_letters:
  "toupper CHR ''a'' = CHR ''A''" "toupper CHR ''b'' = CHR ''B''" "toupper CHR ''c'' = CHR ''C''"
  "toupper CHR ''d'' = CHR ''D''" "toupper CHR ''e'' = CHR ''E''" "toupper CHR ''f'' = CHR ''F''"
  "toupper CHR ''g'' = CHR ''G''" "toupper CHR ''r'' = CHR ''R''" "toupper CHR ''o'' = CHR ''O''"
  "toupper CHR ''A'' = CHR ''A''" "toupper CHR ''B'' = CHR ''B''" "toupper CHR ''C'' = CHR ''C''"
  "toupper CHR ''D'' = CHR ''D''" "toupper CHR ''E'' = CHR ''E''" "toupper CHR ''F'' = CHR ''F''"
  "toupper CHR ''G'' = CHR ''G''" "toupper CHR ''R'' = CHR ''R''" "toupper CHR ''O'' = CHR ''O''"
  by (simp_all add: toupper_def code_def char_of_def)

lemma is_note_letters:
  "is_note CHR ''a''" "is_note CHR ''b''" "is_note CHR ''c''" "is_note CHR ''d''"
  "is_note CHR ''e''" "is_note CHR ''f''" "is_note CHR ''g''" "is_note CHR ''r''"
  "is_note CHR ''A''" "is_note CHR ''B''" "is_note CHR ''C''" "is_note CHR ''D''"
  "is_note CHR ''E''" "is_note CHR ''F''" "is_note CHR ''G''" "is_note CHR ''R''"
  "\<not> is_note CHR ''o''" "\<not> is_note CHR ''O''"
  by (simp_all add: is_note_def code_def)

lemma play_letter_facts:
  assumes "play_letter c"
  shows "(is_note c \<longleftrightarrow> toupper c \<noteq> CHR ''O'') \<and>
         ((c = CHR ''o'' \<or> c = CHR ''O'') \<longleftrightarrow> toupper c = CHR ''O'') \<and>
         c \<noteq> CHR 0x00"
proof -
  from play_letter_cases [OF assms]
  have "c = CHR ''a'' \<or> c = CHR ''b'' \<or> c = CHR ''c'' \<or> c = CHR ''d'' \<or> c = CHR ''e'' \<or>
    c = CHR ''f'' \<or> c = CHR ''g'' \<or> c = CHR ''A'' \<or> c = CHR ''B'' \<or> c = CHR ''C'' \<or>
    c = CHR ''D'' \<or> c = CHR ''E'' \<or> c = CHR ''F'' \<or> c = CHR ''G'' \<or> c = CHR ''r'' \<or>
    c = CHR ''R'' \<or> c = CHR ''o'' \<or> c = CHR ''O''"
    by simp
  then show ?thesis
    by (elim disjE) (simp_all add: toupper_letters is_note_letters)
qed


lemma code_char_of: "0 \<le> n \<Longrightarrow> n < 256 \<Longrightarrow> code (char_of n) = n"
  by (simp add: code_def)

lemma toupper_R: "toupper c = CHR ''R'' \<longleftrightarrow> c = CHR ''r'' \<or> c = CHR ''R''"
proof -
  have v: "code CHR ''a'' = 97" "code CHR ''z'' = 122" "code CHR ''R'' = 82"
    "code CHR ''r'' = 114"
    by (simp_all add: code_def)
  show ?thesis
  proof (cases "code (CHR ''a'') \<le> code c \<and> code c \<le> code (CHR ''z'')")
    case True
    then have r: "97 \<le> code c" "code c \<le> 122" by (simp_all only: v)
    from True have t: "toupper c = char_of (code c - 32)"
      by (simp add: toupper_def)
    from r have u: "code (toupper c) = code c - 32"
      by (simp only: t) (rule code_char_of, simp_all)
    have 1: "toupper c = CHR ''R'' \<longleftrightarrow> code c = 114"
    proof
      assume "toupper c = CHR ''R''"
      then have "code (toupper c) = 82" by (simp only: v)
      with u show "code c = 114" by simp
    next
      assume "code c = 114"
      with u have "code (toupper c) = code CHR ''R''" by (simp only: v)
      then show "toupper c = CHR ''R''" by (rule code_inj)
    qed
    have 2: "code c = 114 \<longleftrightarrow> c = CHR ''r''"
    proof
      assume "code c = 114"
      then have "code c = code CHR ''r''" by (simp only: v)
      then show "c = CHR ''r''" by (rule code_inj)
    next
      assume "c = CHR ''r''"
      then show "code c = 114" by (simp only: v)
    qed
    have 3: "c \<noteq> CHR ''R''"
    proof
      assume "c = CHR ''R''"
      then have "code c = 82" by (simp only: v)
      with r show False by simp
    qed
    from 1 2 3 show ?thesis by simp
  next
    case False
    then have t: "toupper c = c" by (auto simp: toupper_def)
    have "c \<noteq> CHR ''r''"
    proof
      assume "c = CHR ''r''"
      then have "code c = 114" by (simp only: v)
      with False show False by (simp only: v) simp
    qed
    with t show ?thesis by simp
  qed
qed

lemma play_note_toupper:
  "toupper n = toupper n' \<Longrightarrow> play_note n h oc d = play_note n' h oc d"
  by (simp add: play_note_def Let_def)

lemma same_letter_is_note: "same_letter c d \<Longrightarrow> is_note c \<longleftrightarrow> is_note d"
  unfolding same_letter_def using play_letter_facts [of c] play_letter_facts [of d] by metis

lemma same_letter_octave:
  "same_letter c d \<Longrightarrow> (c = CHR ''o'' \<or> c = CHR ''O'') \<longleftrightarrow> (d = CHR ''o'' \<or> d = CHR ''O'')"
  unfolding same_letter_def using play_letter_facts [of c] play_letter_facts [of d] by metis

lemma same_letter_toupper: "same_letter c d \<Longrightarrow> toupper c = toupper d"
  unfolding same_letter_def by auto

lemma same_letter_other:
  "same_letter c d \<Longrightarrow> \<not> is_note c \<Longrightarrow> c \<noteq> CHR ''o'' \<Longrightarrow> c \<noteq> CHR ''O'' \<Longrightarrow> d = c"
  unfolding same_letter_def play_letter_def by auto

lemma same_letter_NUL: "same_letter c d \<Longrightarrow> c = CHR 0x00 \<longleftrightarrow> d = CHR 0x00"
  unfolding same_letter_def using play_letter_facts [of c] play_letter_facts [of d] by metis


lemma not_rest: "n \<noteq> CHR ''r'' \<and> n \<noteq> CHR ''R'' \<longleftrightarrow> toupper n \<noteq> CHR ''R''"
  using toupper_R [of n] by simp

lemma body_sim:
  assumes s: "sim l m" and cd: "same_letter c d"
  shows "sim_outcome (body l c e) (body m d e)"
proof -
  from s have f: "state m = state l" "pos m = pos l" "octave m = octave l"
    "duration m = duration l" "half_tone m = half_tone l" "pending_note m = pending_note l"
    "length_specified m = length_specified l" "toupper (note m) = toupper (note l)"
    by (simp_all add: sim_def)
  show ?thesis
  proof (cases "is_note c \<or> c = CHR ''o'' \<or> c = CHR ''O''")
    case False
    with cd have d: "d = c" by (simp add: same_letter_other)
    show ?thesis
    proof (cases "state l")
      case COMMAND
      with False f show ?thesis
        unfolding d
        by (simp add: body_def sim_outcome_def sim_def play_note_total not_rest Let_def)
    next
      case OCTAVE_NUMBER
      with f show ?thesis
        unfolding d
        by (simp add: body_def sim_outcome_def sim_def)
    qed
  next
    case True
    from cd have n: "is_note d \<longleftrightarrow> is_note c" by (simp add: same_letter_is_note)
    from cd have o: "(d = CHR ''o'' \<or> d = CHR ''O'') \<longleftrightarrow> (c = CHR ''o'' \<or> c = CHR ''O'')"
      by (simp add: same_letter_octave)
    from cd have t: "toupper d = toupper c" by (simp add: same_letter_toupper)
    from True digit_not_letter [of c] have dc: "\<not> isdigit c" by blast
    from True n o digit_not_letter [of d] have dd: "\<not> isdigit d" by blast
    show ?thesis
    proof (cases "state l")
      case OCTAVE_NUMBER
      with f dc dd show ?thesis
        by (simp add: body_def sim_outcome_def)
    next
      case COMMAND
      show ?thesis
      proof (cases "is_note c")
        case True
        with COMMAND n f t show ?thesis
          by (simp add: body_def sim_outcome_def sim_def play_note_total Let_def)
      next
        case False
        with True have oc: "c = CHR ''o'' \<or> c = CHR ''O''" by simp
        with o have od: "d = CHR ''o'' \<or> d = CHR ''O''" by simp
        from False n have nd: "\<not> is_note d" by simp
        from COMMAND False nd oc od f show ?thesis
          by (simp add: body_def sim_outcome_def sim_def play_note_total Let_def)
      qed
    qed
  qed
qed


lemma sim_pos: "sim l m \<Longrightarrow> sim (l\<lparr>pos := p\<rparr>) (m\<lparr>pos := p\<rparr>)"
  by (simp add: sim_def)

lemma play_loop_sim:
  "list_all2 same_letter cs ds \<Longrightarrow> sim l m \<Longrightarrow> play_loop l cs = play_loop m ds"
proof (induction arbitrary: l m rule: list_all2_induct)
  case Nil
  show ?case by simp
next
  case (Cons c cs d ds)
  from Cons.hyps(2) have "length cs = length ds" by (rule list_all2_lengthD)
  then have e: "(ds = []) = (cs = [])" by auto
  from body_sim [OF Cons.prems Cons.hyps(1), of "cs = []"]
  consider (ret) p where "body l c (cs = []) = Some (Return p)"
      "body m d (cs = []) = Some (Return p)"
    | (cont) l' m' ev where "body l c (cs = []) = Some (Continue l' ev)"
      "body m d (cs = []) = Some (Continue m' ev)" "sim l' m'"
    unfolding sim_outcome_def by blast
  then show ?case
  proof cases
    case ret
    then show ?thesis by (simp add: e)
  next
    case cont
    from cont(3) have p: "pos m' = pos l'" by (simp add: sim_def)
    have "play_loop (l'\<lparr>pos := q\<rparr>) cs = play_loop (m'\<lparr>pos := q\<rparr>) ds" for q
      by (rule Cons.IH) (rule sim_pos [OF cont(3)])
    with cont(1,2) p show ?thesis by (simp add: e)
  qed
qed

lemma c_string_same_letter:
  "list_all2 same_letter s t \<Longrightarrow> list_all2 same_letter (c_string s) (c_string t)"
proof (induction rule: list_all2_induct)
  case Nil
  show ?case by (simp add: c_string_def)
next
  case (Cons c cs d ds)
  from same_letter_NUL [OF Cons.hyps(1)] Cons.hyps(1) Cons.IH show ?case
    by (simp add: c_string_def)
qed

lemma sim_refl: "sim l l"
  by (simp add: sim_def)

subsection \<open>Claims on concrete inputs\<close>

text \<open>
  C7. \<^verbatim>\<open>play("C")\<close> calls the callback exactly once, with the frequency
  \<^verbatim>\<open>note_to_freq('C', 0, 4)\<close> (no accidental, the default octave 4) and the gap
  \<open>1000 / 1 = 1000\<close> of the default duration 1, and returns \<open>-1\<close>.
\<close>

theorem play_single_C:
  "play ''C'' = Some ([(note_to_freq CHR ''C'' CHR 0x00 4, 1000)], - 1)"
  by (simp add: play_eval cong: bind_weak_cong)

text \<open>
  C1. The claim: a note that is still pending when the input ends after a modifier is
  emitted at the end of the input, so that \<^verbatim>\<open>play("R2")\<close> calls the callback once with
  \<open>(0, 500)\<close> and \<^verbatim>\<open>play("C#")\<close> once with the sharped C of octave 4. The code has no
  flush after the loop: on both inputs the callback is never called. Only a note letter
  that is itself the last character is flushed (\<^verbatim>\<open>play("R")\<close>), and a note closed by its
  second duration digit (\<^verbatim>\<open>play("R16")\<close>).
\<close>

theorem play_pending_note_lost_at_end:
  "play ''R2'' = Some ([], - 1) \<and> play ''C#'' = Some ([], - 1) \<and>
   play ''R'' = Some ([(0, 1000)], - 1) \<and> play ''R16'' = Some ([(0, 62)], - 1)"
  by (simp add: play_eval cong: bind_weak_cong)

text \<open>
  C5. A note flushed with a duration below 1 does not reach the callback, and the
  division \<open>1000 / duration\<close> is not evaluated with a zero divisor: \<^verbatim>\<open>play_note\<close> has a
  defined result for every duration (\<open>None\<close> would be the division by zero), it calls
  the callback exactly when the duration is at least 1, and then with the gap
  \<open>1000 div duration\<close>. In \<^verbatim>\<open>play("C0D")\<close> the note C, flushed with duration 0, is
  silent and D is the only note emitted.
\<close>

theorem play_note_duration_guard:
  "play_note n h oc d =
     Some (if 1 \<le> d
           then [(if toupper n \<noteq> CHR ''R'' then note_to_freq (toupper n) h oc else 0,
                  1000 div d)]
           else []) \<and>
   play_note n h oc 0 = Some [] \<and>
   play ''C0D'' = Some ([(note_to_freq CHR ''D'' CHR 0x00 4, 1000)], - 1)"
  by (simp add: play_eval cong: bind_weak_cong)

subsection \<open>The return value\<close>

text \<open>
  C3. For an input of at most \<^verbatim>\<open>INT_MAX\<close> characters \<^verbatim>\<open>play\<close> returns a value \<open>r\<close>, and
  \<open>r\<close> is \<open>-1\<close> or an index into the input. When \<open>r\<close> is \<open>-1\<close> no character is
  rejected: every prefix of the input is consumed whole as well. Otherwise \<open>r\<close> is the
  index of the first rejected character: every input made of the first \<open>k \<le> r\<close>
  characters is consumed whole, and the characters after index \<open>r\<close> play no role, neither
  for the value returned nor for the callback invocations: replacing them by any other
  text gives the same invocations and the same \<open>r\<close>. In particular \<^verbatim>\<open>play("C%")\<close> returns 1
  after no callback invocation, and \<^verbatim>\<open>play("OX")\<close> returns 1.
\<close>

theorem play_return_value:
  assumes "int (length (c_string s)) \<le> INT_MAX"
  shows "(\<exists>evs r. play s = Some (evs, r) \<and>
            (r = - 1 \<or> (0 \<le> r \<and> r < int (length (c_string s)))) \<and>
            (\<forall>k. int k \<le> (if r = - 1 then int (length (c_string s)) else r) \<longrightarrow>
                 (\<exists>e. play (take k (c_string s)) = Some (e, - 1))) \<and>
            (r \<noteq> - 1 \<longrightarrow>
               (\<forall>t. play (take (nat r + 1) (c_string s) @ t) = Some (evs, r)))) \<and>
         play ''C%'' = Some ([], 1) \<and> play ''OX'' = Some ([], 1)"
proof -
  let ?cs = "c_string s"
  have p0: "0 \<le> pos init" "pos init = 0" by (simp_all add: init_def)
  from assms have "pos init + int (length ?cs) \<le> INT_MAX" by (simp add: init_def)
  from play_loop_range [OF p0(1) this] obtain evs r where
    run: "play_loop init ?cs = Some (evs, r)"
    and rng: "r = - 1 \<or> (0 \<le> r \<and> r < int (length ?cs))"
    by (auto simp: init_def)
  have pre: "\<exists>e. play (take k ?cs) = Some (e, - 1)"
    if "int k \<le> (if r = - 1 then int (length ?cs) else r)" for k
  proof -
    from that have "int k \<le> (if r = - 1 then int (length ?cs) else r - pos init)"
      by (simp add: p0(2) split: if_splits)
    from play_loop_prefix [OF run p0(1) this]
    obtain e where "play_loop init (take k ?cs) = Some (e, - 1)" by blast
    moreover have "c_string (take k ?cs) = take k ?cs"
      by (rule c_string_take_idem)
    ultimately show ?thesis by (simp add: play_def)
  qed
  have ext: "play (take (nat r + 1) ?cs @ t) = Some (evs, r)" if "r \<noteq> - 1" for t
  proof -
    from play_loop_extend [OF run p0(1) that, of "c_string t"]
    have "play_loop init (take (nat r + 1) ?cs @ c_string t) = Some (evs, r)"
      by (simp add: init_def)
    then show ?thesis by (simp add: play_def c_string_take)
  qed
  have ex: "play ''C%'' = Some ([], 1) \<and> play ''OX'' = Some ([], 1)"
    by (simp add: play_eval cong: bind_weak_cong)
  from run have ps: "play s = Some (evs, r)" by (simp add: play_def)
  have "play s = Some (evs, r) \<and>
        (r = - 1 \<or> (0 \<le> r \<and> r < int (length ?cs))) \<and>
        (\<forall>k. int k \<le> (if r = - 1 then int (length ?cs) else r) \<longrightarrow>
             (\<exists>e. play (take k ?cs) = Some (e, - 1))) \<and>
        (r \<noteq> - 1 \<longrightarrow> (\<forall>t. play (take (nat r + 1) ?cs @ t) = Some (evs, r)))"
  proof (intro conjI allI impI)
    show "play s = Some (evs, r)" by (rule ps)
    show "r = - 1 \<or> (0 \<le> r \<and> r < int (length ?cs))" by (rule rng)
    show "\<exists>e. play (take k ?cs) = Some (e, - 1)"
      if "int k \<le> (if r = - 1 then int (length ?cs) else r)" for k
      using that by (rule pre)
    show "play (take (nat r + 1) ?cs @ t) = Some (evs, r)" if "r \<noteq> - 1" for t
      using that by (rule ext)
  qed
  then have "\<exists>r. play s = Some (evs, r) \<and>
        (r = - 1 \<or> (0 \<le> r \<and> r < int (length ?cs))) \<and>
        (\<forall>k. int k \<le> (if r = - 1 then int (length ?cs) else r) \<longrightarrow>
             (\<exists>e. play (take k ?cs) = Some (e, - 1))) \<and>
        (r \<noteq> - 1 \<longrightarrow> (\<forall>t. play (take (nat r + 1) ?cs @ t) = Some (evs, r)))"
    by (rule exI)
  then have "\<exists>evs r. play s = Some (evs, r) \<and>
        (r = - 1 \<or> (0 \<le> r \<and> r < int (length ?cs))) \<and>
        (\<forall>k. int k \<le> (if r = - 1 then int (length ?cs) else r) \<longrightarrow>
             (\<exists>e. play (take k ?cs) = Some (e, - 1))) \<and>
        (r \<noteq> - 1 \<longrightarrow> (\<forall>t. play (take (nat r + 1) ?cs @ t) = Some (evs, r)))"
    by (rule exI)
  then show ?thesis using ex by (rule conjI)
qed

text \<open>The theorem at \<^verbatim>\<open>"CD%E"\<close>: C is emitted when D starts, \<open>%\<close> is rejected at index 2,
  and D, still pending, is never emitted.\<close>

theorem play_return_value_witness:
  "int (length (c_string ''CD%E'')) \<le> INT_MAX \<and>
   (\<exists>evs r. play ''CD%E'' = Some (evs, r) \<and>
      (r = - 1 \<or> (0 \<le> r \<and> r < int (length (c_string ''CD%E'')))) \<and>
      (\<forall>k. int k \<le> (if r = - 1 then int (length (c_string ''CD%E'')) else r) \<longrightarrow>
           (\<exists>e. play (take k (c_string ''CD%E'')) = Some (e, - 1))) \<and>
      (r \<noteq> - 1 \<longrightarrow>
         (\<forall>t. play (take (nat r + 1) (c_string ''CD%E'') @ t) = Some (evs, r)))) \<and>
   play ''CD%E'' = Some ([(note_to_freq CHR ''C'' CHR 0x00 4, 1000)], 2)"
proof -
  have h: "int (length (c_string ''CD%E'')) \<le> INT_MAX"
    by (simp add: c_string_def INT_MAX_def)
  have e: "play ''CD%E'' = Some ([(note_to_freq CHR ''C'' CHR 0x00 4, 1000)], 2)"
    by (simp add: play_eval cong: bind_weak_cong)
  show ?thesis
    by (intro conjI) (rule h, rule conjunct1 [OF play_return_value [OF h]], rule e)
qed

subsection \<open>Characters that are not commands\<close>

text \<open>
  C2, as the code has it. In state \<^verbatim>\<open>COMMAND\<close>, a character that is not a note letter, not
  a rest and not an octave marker, met while no note is pending, is skipped: the body of
  the loop calls no callback and leaves every local as it is (the branch
  \<^verbatim>\<open>else if (pending_note)\<close> has no \<^verbatim>\<open>else\<close>), and the loop goes on with the next
  character.
\<close>

theorem command_skips_unrecognised:
  assumes "state l = COMMAND" and "\<not> pending_note l"
    and "\<not> is_note c" and "c \<noteq> CHR ''o''" and "c \<noteq> CHR ''O''"
  shows "body l c e = Some (Continue l []) \<and>
         (pos l < INT_MAX \<longrightarrow> play_loop l (c # cs) = play_loop (l\<lparr>pos := pos l + 1\<rparr>) cs)"
proof -
  from assms have b: "body l c e = Some (Continue l [])" for e
    by (simp add: body_def)
  then show ?thesis
    by (simp add: incr_def bind_unit)
qed

text \<open>The theorem at the first character of \<^verbatim>\<open>"%C"\<close>.\<close>

theorem command_skips_unrecognised_witness:
  "state init = COMMAND \<and> \<not> pending_note init \<and> \<not> is_note CHR ''%'' \<and>
   body init CHR ''%'' False = Some (Continue init []) \<and>
   pos init < INT_MAX \<and>
   play_loop init ''%C'' = play_loop (init\<lparr>pos := pos init + 1\<rparr>) ''C''"
proof -
  have h: "state init = COMMAND" "\<not> pending_note init" "\<not> is_note CHR ''%''"
    "CHR ''%'' \<noteq> CHR ''o''" "CHR ''%'' \<noteq> CHR ''O''" "pos init < INT_MAX"
    by (simp_all add: init_def is_note_def code_def INT_MAX_def)
  from command_skips_unrecognised [OF h(1-5), of False "''C''"] h
  show ?thesis by blast
qed

text \<open>The claim C2 as stated, that \<^verbatim>\<open>play("%C")\<close> returns 0 after no callback invocation,
  fails: the \<open>%\<close> is skipped, C is emitted and the input is consumed whole.\<close>

theorem play_percent_C_not_rejected:
  "play ''%C'' = Some ([(note_to_freq CHR ''C'' CHR 0x00 4, 1000)], - 1) \<and>
   play ''%C'' \<noteq> Some ([], 0)"
  by (simp add: play_eval cong: bind_weak_cong)

subsection \<open>The second duration digit\<close>

text \<open>
  C6, as the code has it. In state \<^verbatim>\<open>COMMAND\<close> with a note pending and one duration
  digit consumed (\<^verbatim>\<open>length_specified\<close>), the next character is treated as follows.
  \<^item> A decimal digit flushes the note with the duration \<open>duration * 10 + digit\<close>: the
    callback is called with the gap \<open>1000 div (duration * 10 + digit)\<close> when that duration
    is at least 1 and not at all when it is 0; afterwards no note is pending and the state
    is \<^verbatim>\<open>COMMAND\<close>.
  \<^item> A character that is neither a digit nor a note letter, a rest or an octave marker
    makes \<^verbatim>\<open>play\<close> return the current position.
  \<^item> A note letter or a rest flushes the pending note with its one-digit duration (emitted
    when that is at least 1) and starts the next note, with no accidental and duration 1;
    when it is the last character the new note is emitted at once.
  \<^item> An octave marker flushes the pending note in the same way, leaves no note pending and
    moves to the state \<^verbatim>\<open>OCTAVE_NUMBER\<close>.
\<close>

theorem second_duration_digit:
  assumes "state l = COMMAND" and "pending_note l" and "length_specified l"
  shows "(isdigit c \<longrightarrow>
            body l c e =
              Some (Continue
                (l\<lparr>duration := duration l * 10 + code c - code CHR ''0'',
                   pending_note := False, length_specified := False, state := COMMAND\<rparr>)
                (if 1 \<le> duration l * 10 + code c - code CHR ''0''
                 then [(if toupper (note l) \<noteq> CHR ''R''
                        then note_to_freq (toupper (note l)) (half_tone l) (octave l) else 0,
                        1000 div (duration l * 10 + code c - code CHR ''0''))]
                 else []))) \<and>
         (\<not> isdigit c \<and> \<not> is_note c \<and> c \<noteq> CHR ''o'' \<and> c \<noteq> CHR ''O'' \<longrightarrow>
            body l c e = Some (Return (pos l)) \<and> play_loop l (c # cs) = Some ([], pos l)) \<and>
         (is_note c \<longrightarrow>
            body l c e =
              Some (Continue
                (l\<lparr>note := c, half_tone := CHR 0x00, duration := 1,
                   pending_note := True, length_specified := False\<rparr>)
                ((if 1 \<le> duration l
                  then [(if toupper (note l) \<noteq> CHR ''R''
                         then note_to_freq (toupper (note l)) (half_tone l) (octave l) else 0,
                         1000 div duration l)]
                  else []) @
                 (if e
                  then [(if toupper c \<noteq> CHR ''R''
                         then note_to_freq (toupper c) CHR 0x00 (octave l) else 0,
                         1000)]
                  else [])))) \<and>
         (c = CHR ''o'' \<or> c = CHR ''O'' \<longrightarrow>
            body l c e =
              Some (Continue
                (l\<lparr>pending_note := False, length_specified := False,
                   state := OCTAVE_NUMBER\<rparr>)
                (if 1 \<le> duration l
                 then [(if toupper (note l) \<noteq> CHR ''R''
                        then note_to_freq (toupper (note l)) (half_tone l) (octave l) else 0,
                        1000 div duration l)]
                 else [])))"
proof -
  have A: "body l c e =
          Some (Continue
            (l\<lparr>duration := duration l * 10 + code c - code CHR ''0'',
               pending_note := False, length_specified := False, state := COMMAND\<rparr>)
            (if 1 \<le> duration l * 10 + code c - code CHR ''0''
             then [(if toupper (note l) \<noteq> CHR ''R''
                    then note_to_freq (toupper (note l)) (half_tone l) (octave l) else 0,
                    1000 div (duration l * 10 + code c - code CHR ''0''))]
             else []))" if d: "isdigit c"
    using digit_not_letter [OF d] assms d
    by (simp add: body_def play_note_total Let_def)
  have B: "body l c e = Some (Return (pos l)) \<and> play_loop l (c # cs) = Some ([], pos l)"
    if n: "\<not> isdigit c \<and> \<not> is_note c \<and> c \<noteq> CHR ''o'' \<and> c \<noteq> CHR ''O''"
  proof -
    from n assms have b: "body l c e = Some (Return (pos l))" for e
      by (simp add: body_def)
    then show ?thesis by simp
  qed
  have C: "body l c e =
          Some (Continue
            (l\<lparr>note := c, half_tone := CHR 0x00, duration := 1,
               pending_note := True, length_specified := False\<rparr>)
            ((if 1 \<le> duration l
              then [(if toupper (note l) \<noteq> CHR ''R''
                     then note_to_freq (toupper (note l)) (half_tone l) (octave l) else 0,
                     1000 div duration l)]
              else []) @
             (if e
              then [(if toupper c \<noteq> CHR ''R''
                     then note_to_freq (toupper c) CHR 0x00 (octave l) else 0,
                     1000)]
              else [])))" if n: "is_note c"
    using assms n by (simp add: body_def play_note_total Let_def)
  have D: "body l c e =
          Some (Continue
            (l\<lparr>pending_note := False, length_specified := False,
               state := OCTAVE_NUMBER\<rparr>)
            (if 1 \<le> duration l
             then [(if toupper (note l) \<noteq> CHR ''R''
                    then note_to_freq (toupper (note l)) (half_tone l) (octave l) else 0,
                    1000 div duration l)]
             else []))" if o: "c = CHR ''o'' \<or> c = CHR ''O''"
  proof -
    from o have "\<not> is_note c" by (auto simp: is_note_def code_def)
    with assms o show ?thesis by (simp add: body_def play_note_total Let_def)
  qed
  from A B C D show ?thesis by blast
qed

text \<open>The theorem after the input \<^verbatim>\<open>"C2"\<close>, at the characters \<open>4\<close>, \<open>%\<close>, \<open>D\<close> and
  \<open>O\<close>.\<close>

theorem second_duration_digit_witness:
  "state after_C2 = COMMAND \<and> pending_note after_C2 \<and> length_specified after_C2 \<and>
   isdigit CHR ''4'' \<and>
   body after_C2 CHR ''4'' True =
     Some (Continue (after_C2\<lparr>duration := 24, pending_note := False, length_specified := False\<rparr>)
            [(note_to_freq CHR ''C'' CHR 0x00 4, 41)]) \<and>
   \<not> isdigit CHR ''%'' \<and> \<not> is_note CHR ''%'' \<and>
   body after_C2 CHR ''%'' True = Some (Return 2) \<and>
   play_loop after_C2 ''%D'' = Some ([], 2) \<and>
   is_note CHR ''D'' \<and>
   body after_C2 CHR ''D'' True =
     Some (Continue (after_C2\<lparr>note := CHR ''D'', duration := 1, length_specified := False\<rparr>)
            [(note_to_freq CHR ''C'' CHR 0x00 4, 500),
             (note_to_freq CHR ''D'' CHR 0x00 4, 1000)]) \<and>
   body after_C2 CHR ''O'' True =
     Some (Continue (after_C2\<lparr>pending_note := False, length_specified := False,
                              state := OCTAVE_NUMBER\<rparr>)
            [(note_to_freq CHR ''C'' CHR 0x00 4, 500)])"
  using second_duration_digit [of after_C2 "CHR ''4''" True "''''"]
    second_duration_digit [of after_C2 "CHR ''%''" True "''D''"]
    second_duration_digit [of after_C2 "CHR ''D''" True "''''"]
    second_duration_digit [of after_C2 "CHR ''O''" True "''''"]
  by (simp add: after_C2_def isdigit_def is_note_def code_def toupper_def char_of_def)

text \<open>The claim C6 as stated fails twice. A note letter is a non-digit that is accepted
  in that position: in \<^verbatim>\<open>play("C2D")\<close> the D flushes C and starts a note, and \<open>-1\<close> is
  returned, not 2. And the digits 00 flush the note without emitting it.\<close>

theorem second_digit_claim_fails:
  "play ''C2D'' = Some ([(note_to_freq CHR ''C'' CHR 0x00 4, 500),
                         (note_to_freq CHR ''D'' CHR 0x00 4, 1000)], - 1) \<and>
   play ''C00'' = Some ([], - 1)"
  by (simp add: play_eval cong: bind_weak_cong)

subsection \<open>An octave marker at the end of the input\<close>

text \<open>
  C10, as the code has it. When the last character of the input is an octave marker read
  in state \<^verbatim>\<open>COMMAND\<close>, \<^verbatim>\<open>play\<close> returns \<open>-1\<close>; a note pending before the marker is flushed,
  which emits it when its duration is at least 1; and the body of the loop leaves the
  octave as it was, with the state \<^verbatim>\<open>OCTAVE_NUMBER\<close> and no note pending.
\<close>

theorem trailing_octave_marker:
  assumes "state l = COMMAND" and "c = CHR ''o'' \<or> c = CHR ''O''" and "pos l < INT_MAX"
  shows "play_loop l [c] =
           Some (if pending_note l \<and> 1 \<le> duration l
                 then [(if toupper (note l) \<noteq> CHR ''R''
                        then note_to_freq (toupper (note l)) (half_tone l) (octave l) else 0,
                        1000 div duration l)]
                 else [], - 1) \<and>
         (\<exists>l' ev. body l c True = Some (Continue l' ev) \<and> octave l' = octave l \<and>
                   state l' = OCTAVE_NUMBER \<and> \<not> pending_note l')"
proof -
  from assms(2) have n: "\<not> is_note c" by (auto simp: is_note_def code_def)
  show ?thesis
  proof (cases "pending_note l")
    case True
    with assms n show ?thesis
      by (auto simp: body_def play_note_total incr_def)
  next
    case False
    with assms n show ?thesis
      by (auto simp: body_def incr_def)
  qed
qed

text \<open>The theorem after the input \<^verbatim>\<open>"C"\<close>, and the whole input \<^verbatim>\<open>"CO"\<close>.\<close>

theorem trailing_octave_marker_witness:
  "state after_C = COMMAND \<and> pos after_C < INT_MAX \<and>
   play_loop after_C ''O'' = Some ([(note_to_freq CHR ''C'' CHR 0x00 4, 1000)], - 1) \<and>
   play ''CO'' = Some ([(note_to_freq CHR ''C'' CHR 0x00 4, 1000)], - 1)"
  using trailing_octave_marker [of after_C "CHR ''O''"]
  by (simp add: after_C_def play_eval cong: bind_weak_cong)

text \<open>The claim C10 as stated, that any pending note is emitted, fails for a note of
  duration 0: \<^verbatim>\<open>play("C0O")\<close> calls no callback.\<close>

theorem trailing_octave_marker_silent:
  "play ''C0O'' = Some ([], - 1)"
  by (simp add: play_eval cong: bind_weak_cong)

subsection \<open>The octave command\<close>

text \<open>
  C8. \<^verbatim>\<open>play("O5C")\<close> calls the callback exactly once, with C resolved in octave 5: the
  command \<^verbatim>\<open>O5\<close> has set the octave before the note is resolved. It returns \<open>-1\<close>. The
  frequency emitted, 523 Hz, differs from the 262 Hz that \<^verbatim>\<open>play("C")\<close> emits in the default
  octave 4 (both values in real arithmetic).
\<close>

theorem play_O5C:
  "play ''O5C'' = Some ([(note_to_freq CHR ''C'' CHR 0x00 5, 1000)], - 1) \<and>
   play ''C'' = Some ([(note_to_freq CHR ''C'' CHR 0x00 4, 1000)], - 1) \<and>
   note_to_freq CHR ''C'' CHR 0x00 5 = 523 \<and>
   note_to_freq CHR ''C'' CHR 0x00 4 = 262"
proof -
  have "play ''O5C'' = Some ([(note_to_freq CHR ''C'' CHR 0x00 5, 1000)], - 1)"
    by (simp add: play_eval cong: bind_weak_cong)
  moreover have "play ''C'' = Some ([(note_to_freq CHR ''C'' CHR 0x00 4, 1000)], - 1)"
    by (simp add: play_eval cong: bind_weak_cong)
  ultimately show ?thesis
    by (simp only: note_to_freq_C4 note_to_freq_C5 simp_thms)
qed

subsection \<open>Case-insensitivity\<close>

text \<open>
  C9. Note letters, rests and octave markers are case-insensitive: when the input \<open>t\<close> is
  the input \<open>s\<close> with any number of the letters a-g, r, o replaced by their upper-case
  forms, or of A-G, R, O by their lower-case forms, \<^verbatim>\<open>play\<close> returns the same value on both
  and calls the callback with the same frequencies and gaps in the same order.
\<close>

theorem play_case_insensitive:
  assumes "list_all2 same_letter s t"
  shows "play s = play t"
  unfolding play_def
  by (rule play_loop_sim [OF c_string_same_letter [OF assms] sim_refl])

text \<open>The theorem at \<^verbatim>\<open>"o5c#r2D"\<close> and \<^verbatim>\<open>"O5C#R2d"\<close>.\<close>

theorem play_case_insensitive_witness:
  "list_all2 same_letter ''o5c#r2D'' ''O5C#R2d'' \<and>
   play ''o5c#r2D'' = play ''O5C#R2d'' \<and>
   play ''O5C#R2d'' =
     Some ([(note_to_freq CHR ''C'' CHR ''#'' 5, 1000), (0, 500),
            (note_to_freq CHR ''D'' CHR 0x00 5, 1000)], - 1)"
proof -
  have h: "list_all2 same_letter ''o5c#r2D'' ''O5C#R2d''"
    by (simp add: same_letter_def play_letter_def toupper_letters is_note_letters)
  have v: "play ''O5C#R2d'' =
     Some ([(note_to_freq CHR ''C'' CHR ''#'' 5, 1000), (0, 500),
            (note_to_freq CHR ''D'' CHR 0x00 5, 1000)], - 1)"
    by (simp add: play_eval cong: bind_weak_cong)
  from play_case_insensitive [OF h] h v show ?thesis by (intro conjI)
qed

end
